theory Spec2Isabelle
  imports Main
begin

section \<open>The upload widget \<open>DragDropUpload\<close> (src/components/file_upload.tsx)\<close>

text \<open>
  The component keeps two pieces of React state that matter here, \<open>files\<close> and
  \<open>error\<close>, and talks to three things outside itself: the browser's object-URL store
  (\<open>URL.createObjectURL\<close>, \<open>URL.revokeObjectURL\<close>), the timer queue (\<open>setTimeout\<close>) and
  the \<open>onFilesChange\<close> callback of its parent. All of them are fields of one record that
  every handler takes and returns. Strings are lists of ASCII characters; sizes, counts
  and times are natural numbers (the props are documented as a file count and a byte
  count, and \<open>File.size\<close> is never negative).
\<close>

subsection \<open>Strings\<close>

definition startsWith :: "string \<Rightarrow> string \<Rightarrow> bool" where
  "startsWith s p = (take (length p) s = p)"

definition endsWith :: "string \<Rightarrow> string \<Rightarrow> bool" where
  "endsWith s p = (length p \<le> length s \<and> drop (length s - length p) s = p)"

definition includes_str :: "string \<Rightarrow> char \<Rightarrow> bool" where
  "includes_str s c = (c \<in> set s)"

text \<open>\<open>s.split("/")[0]\<close>: the part of \<open>s\<close> before its first slash, all of \<open>s\<close> if it has none.\<close>

definition splitSlashFirst :: "string \<Rightarrow> string" where
  "splitSlashFirst s = takeWhile (\<lambda>c. c \<noteq> CHR ''/'') s"

text \<open>\<open>toLowerCase\<close> on ASCII text: the capital letters change, every other character stays.\<close>

definition lowerChar :: "char \<Rightarrow> char" where
  "lowerChar c =
     (case map_of (zip ''ABCDEFGHIJKLMNOPQRSTUVWXYZ'' ''abcdefghijklmnopqrstuvwxyz'') c of
        Some l \<Rightarrow> l
      | None \<Rightarrow> c)"

definition toLowerCase :: "string \<Rightarrow> string" where
  "toLowerCase s = map lowerChar s"

text \<open>A non-negative integer inside a template literal: its decimal digits.\<close>

definition digit :: "nat \<Rightarrow> char" where
  "digit d = ''0123456789'' ! d"

fun numberToString :: "nat \<Rightarrow> string" where
  "numberToString n =
     (if n < 10 then [digit n] else numberToString (n div 10) @ [digit (n mod 10)])"

declare numberToString.simps [simp del]

text \<open>
  \<open>Math.round(maxSize / 1024 / 1024)\<close> on a non-negative integer: \<open>Math.round\<close> rounds
  a half upwards, and both divisions are exact in a double.
\<close>

definition roundMB :: "nat \<Rightarrow> nat" where
  "roundMB maxSize = (maxSize + 524288) div 1048576"

subsection \<open>Files, props and state\<close>

type_synonym objectURL = nat

record File =
  name :: string
  size_file :: nat
  type_file :: string

record FileWithPreview = File +
  preview :: "objectURL option"

record props =
  onFilesChange :: bool
  maxFiles :: nat
  maxSize :: nat
  acceptedTypes :: "string list"

record state =
  files :: "FileWithPreview list"
  error :: "string option"
  now :: nat
  timers :: "nat list"
  nextURL :: objectURL
  revoked :: "objectURL list"
  notified :: "FileWithPreview list list"

text \<open>
  \<open>onFilesChange\<close> says whether the parent passed a callback; \<open>notified\<close> is the log of
  the arguments it was called with. \<open>timers\<close> holds the due time of every pending
  \<open>() => setError(null)\<close>, \<open>now\<close> is the clock in milliseconds. \<open>nextURL\<close> counts the
  object URLs created so far (each call of \<open>URL.createObjectURL\<close> returns a fresh one),
  \<open>revoked\<close> is the log of \<open>URL.revokeObjectURL\<close> calls.
\<close>

definition defaultProps :: props where
  "defaultProps = \<lparr>onFilesChange = True, maxFiles = 5, maxSize = 10 * 1024 * 1024,
     acceptedTypes = [''image/*'', ''application/pdf'', ''.doc'', ''.docx'', ''.txt'']\<rparr>"

definition initialState :: state where
  "initialState = \<lparr>files = [], error = None, now = 0, timers = [], nextURL = 0,
     revoked = [], notified = []\<rparr>"

definition createObjectURL :: "state \<Rightarrow> objectURL \<times> state" where
  "createObjectURL s = (nextURL s, s\<lparr>nextURL := Suc (nextURL s)\<rparr>)"

definition revokeObjectURL :: "objectURL \<Rightarrow> state \<Rightarrow> state" where
  "revokeObjectURL u s = s\<lparr>revoked := revoked s @ [u]\<rparr>"

definition setError :: "string option \<Rightarrow> state \<Rightarrow> state" where
  "setError e s = s\<lparr>error := e\<rparr>"

definition setFiles :: "FileWithPreview list \<Rightarrow> state \<Rightarrow> state" where
  "setFiles fs s = s\<lparr>files := fs\<rparr>"

text \<open>\<open>setTimeout(() => setError(null), ms)\<close>.\<close>

definition setTimeout :: "nat \<Rightarrow> state \<Rightarrow> state" where
  "setTimeout ms s = s\<lparr>timers := timers s @ [now s + ms]\<rparr>"

text \<open>\<open>onFilesChange?.(fs)\<close>.\<close>

definition callOnFilesChange :: "props \<Rightarrow> FileWithPreview list \<Rightarrow> state \<Rightarrow> state" where
  "callOnFilesChange p fs s = (if onFilesChange p then s\<lparr>notified := notified s @ [fs]\<rparr> else s)"

text \<open>
  Time passing by \<open>d\<close> milliseconds: every timer that is due by then runs its callback,
  which is \<open>setError(null)\<close> for all of them, and leaves the queue.
\<close>

definition elapse :: "nat \<Rightarrow> state \<Rightarrow> state" where
  "elapse d s =
     (let t = now s + d;
          due = filter (\<lambda>x. x \<le> t) (timers s);
          s1 = s\<lparr>now := t, timers := filter (\<lambda>x. \<not> x \<le> t) (timers s)\<rparr>
      in if due = [] then s1 else setError None s1)"

subsection \<open>\<open>validateFile\<close>\<close>

definition tooLargeMessage :: "props \<Rightarrow> string \<Rightarrow> string" where
  \<open>tooLargeMessage p nm =
     ''File "'' @ nm @ ''" is too large. Maximum size is '' @
     numberToString (roundMB (maxSize p)) @ ''MB.''\<close>

definition unsupportedMessage :: "string \<Rightarrow> string" where
  \<open>unsupportedMessage nm = ''File "'' @ nm @ ''" is not a supported file type.''\<close>

definition capacityMessage :: "props \<Rightarrow> string" where
  "capacityMessage p = ''Maximum '' @ numberToString (maxFiles p) @ '' files allowed.''"

text \<open>The callback of \<open>acceptedTypes.some\<close>: does the rule \<open>type\<close> accept the file?\<close>

definition isValidTypeRule :: "string \<Rightarrow> string \<Rightarrow> string \<Rightarrow> bool" where
  "isValidTypeRule fileType fileName type =
     (if startsWith type ''.'' then endsWith fileName type
      else if includes_str type CHR ''*'' then
        (let baseType = splitSlashFirst type in startsWith fileType baseType)
      else fileType = type)"

definition validateFile :: "props \<Rightarrow> 'a File_scheme \<Rightarrow> string option" where
  "validateFile p file =
     (if size_file file > maxSize p then Some (tooLargeMessage p (name file))
      else
        let fileType = type_file file;
            fileName = toLowerCase (name file);
            isValidType = list_ex (isValidTypeRule fileType fileName) (acceptedTypes p)
        in if \<not> isValidType then Some (unsupportedMessage (name file)) else None)"

subsection \<open>\<open>processFiles\<close>\<close>

text \<open>
  \<open>file as FileWithPreview\<close>: the same file, with no \<open>preview\<close> property yet. Here
  every candidate is a value of its own, which is how the code behaves when the File
  objects it is given are different objects; what happens to one object that is listed
  twice is the subject of the section on File objects with identity below.
\<close>

definition asFileWithPreview :: "File \<Rightarrow> FileWithPreview" where
  "asFileWithPreview file =
     \<lparr>name = name file, size_file = size_file file, type_file = type_file file, preview = None\<rparr>"

text \<open>
  The callback of \<open>Array.from(fileList).forEach\<close>. It works on the two local arrays
  \<open>newFiles\<close> and \<open>errors\<close> and, through \<open>URL.createObjectURL\<close>, on the object-URL
  store; \<open>fs\<close> is the \<open>files\<close> array the handler closed over. A \<open>return\<close> inside the
  callback ends the callback for this file only. Every message of \<open>validateFile\<close> is a
  non-empty string, so \<open>if (validationError)\<close> asks whether it is not \<open>null\<close>.
\<close>

definition forEachCallback ::
  "props \<Rightarrow> FileWithPreview list \<Rightarrow> FileWithPreview list \<times> string list \<times> state \<Rightarrow> File
     \<Rightarrow> FileWithPreview list \<times> string list \<times> state" where
  "forEachCallback p fs acc file =
     (case acc of (newFiles, errors, s) \<Rightarrow>
        (case validateFile p file of
           Some validationError \<Rightarrow> (newFiles, errors @ [validationError], s)
         | None \<Rightarrow>
             if length fs + length newFiles \<ge> maxFiles p
             then (newFiles, errors @ [capacityMessage p], s)
             else
               let fileWithPreview = asFileWithPreview file
               in if startsWith (type_file file) ''image/''
                  then (case createObjectURL s of (u, s1) \<Rightarrow>
                          (newFiles @ [fileWithPreview\<lparr>preview := Some u\<rparr>], errors, s1))
                  else (newFiles @ [fileWithPreview], errors, s)))"

definition forEachFile ::
  "props \<Rightarrow> state \<Rightarrow> File list \<Rightarrow> FileWithPreview list \<times> string list \<times> state" where
  "forEachFile p s fileList = foldl (forEachCallback p (files s)) ([], [], s) fileList"

definition processFiles :: "props \<Rightarrow> state \<Rightarrow> File list \<Rightarrow> state" where
  "processFiles p s fileList =
     (case forEachFile p s fileList of (newFiles, errors, s1) \<Rightarrow>
        let s2 = (if length errors > 0
                  then setTimeout 5000 (setError (Some (hd errors)) s1)
                  else setError None s1)
        in if length newFiles > 0
           then (let updatedFiles = files s @ newFiles
                 in callOnFilesChange p updatedFiles (setFiles updatedFiles s2))
           else s2)"

subsection \<open>\<open>removeFile\<close>\<close>

datatype exception = TypeError

text \<open>\<open>files.filter((_, i) => i !== index)\<close> and \<open>files[index]\<close>, for an integer \<open>index\<close>.\<close>

definition filterNotIndex :: "'a list \<Rightarrow> int \<Rightarrow> 'a list" where
  "filterNotIndex xs index =
     map snd (filter (\<lambda>(i, x). int i \<noteq> index) (enumerate 0 xs))"

definition atIndex :: "'a list \<Rightarrow> int \<Rightarrow> 'a option" where
  "atIndex xs index =
     (if 0 \<le> index \<and> index < int (length xs) then Some (xs ! nat index) else None)"

text \<open>
  The handler returns the exception it threw, if any, and the state it left behind.
  When \<open>files[index]\<close> is \<open>undefined\<close>, reading its \<open>preview\<close> throws a \<open>TypeError\<close>
  before any state is touched; nothing in the component catches it. A preview is a
  blob URL, never the empty string, so \<open>if (fileToRemove.preview)\<close> asks whether the
  entry has one.
\<close>

definition removeFile :: "props \<Rightarrow> state \<Rightarrow> int \<Rightarrow> exception option \<times> state" where
  "removeFile p s index =
     (let updatedFiles = filterNotIndex (files s) index
      in case atIndex (files s) index of
           None \<Rightarrow> (Some TypeError, s)
         | Some fileToRemove \<Rightarrow>
             let s1 = (case preview fileToRemove of
                         Some u \<Rightarrow> revokeObjectURL u s
                       | None \<Rightarrow> s)
             in (None, callOnFilesChange p updatedFiles (setFiles updatedFiles s1)))"

subsection \<open>Runs\<close>

datatype event = SubmitBatch "File list" | RemoveEntry int | Elapse nat

fun step :: "props \<Rightarrow> state \<Rightarrow> event \<Rightarrow> state" where
  "step p s (SubmitBatch fileList) = processFiles p s fileList"
| "step p s (RemoveEntry index) = snd (removeFile p s index)"
| "step p s (Elapse d) = elapse d s"

definition run :: "props \<Rightarrow> event list \<Rightarrow> state" where
  "run p evs = foldl (step p) initialState evs"

subsection \<open>Preview handles held by a list of entries\<close>

fun previewHandles :: "FileWithPreview list \<Rightarrow> objectURL list" where
  "previewHandles [] = []"
| "previewHandles (e # es) =
     (case preview e of Some u \<Rightarrow> u # previewHandles es | None \<Rightarrow> previewHandles es)"

text \<open>
  What \<open>forEachCallback\<close> records for one candidate that is not staged: the message of
  \<open>validateFile\<close> if it has one, the capacity message otherwise.
\<close>

definition rejectionMessage :: "props \<Rightarrow> File \<Rightarrow> string" where
  "rejectionMessage p file =
     (case validateFile p file of Some e \<Rightarrow> e | None \<Rightarrow> capacityMessage p)"

subsection \<open>File objects with identity\<close>

text \<open>
  \<open>file as FileWithPreview\<close> is a cast: line 81 writes \<open>preview\<close> onto the File object
  itself, and \<open>newFiles\<close> and \<open>files\<close> hold references to these objects. For the
  bookkeeping of object URLs, where it matters whether two entries are one object, the
  handlers are modelled over a store of File objects. A file is now the identity of an
  object, \<open>heap\<close> gives the object behind it (its \<open>name\<close>, \<open>size\<close> and \<open>type\<close> never
  change, its \<open>preview\<close> does), and the primed fields and handlers are the ones above
  with references in place of records.
\<close>

type_synonym fileId = nat

record state' =
  heap :: "fileId \<Rightarrow> FileWithPreview"
  files' :: "fileId list"
  error' :: "string option"
  now' :: nat
  timers' :: "nat list"
  nextURL' :: objectURL
  revoked' :: "objectURL list"
  notified' :: "fileId list list"

text \<open>The File objects exist before they are handed over; none has a \<open>preview\<close> yet.\<close>

definition initialState' :: "(fileId \<Rightarrow> File) \<Rightarrow> state'" where
  "initialState' objects =
     \<lparr>heap = (\<lambda>r. asFileWithPreview (objects r)), files' = [], error' = None, now' = 0,
      timers' = [], nextURL' = 0, revoked' = [], notified' = []\<rparr>"

definition forEachCallback' ::
  "props \<Rightarrow> fileId list \<Rightarrow> fileId list \<times> string list \<times> state' \<Rightarrow> fileId
     \<Rightarrow> fileId list \<times> string list \<times> state'" where
  "forEachCallback' p fs acc file =
     (case acc of (newFiles, errors, s) \<Rightarrow>
        (case validateFile p (heap s file) of
           Some validationError \<Rightarrow> (newFiles, errors @ [validationError], s)
         | None \<Rightarrow>
             if length fs + length newFiles \<ge> maxFiles p
             then (newFiles, errors @ [capacityMessage p], s)
             else if startsWith (type_file (heap s file)) ''image/''
                  then (newFiles @ [file], errors,
                        s\<lparr>heap := (heap s)(file := (heap s file)\<lparr>preview := Some (nextURL' s)\<rparr>),
                          nextURL' := Suc (nextURL' s)\<rparr>)
                  else (newFiles @ [file], errors, s)))"

definition forEachFile' ::
  "props \<Rightarrow> state' \<Rightarrow> fileId list \<Rightarrow> fileId list \<times> string list \<times> state'" where
  "forEachFile' p s fileList = foldl (forEachCallback' p (files' s)) ([], [], s) fileList"

definition callOnFilesChange' :: "props \<Rightarrow> fileId list \<Rightarrow> state' \<Rightarrow> state'" where
  "callOnFilesChange' p fs s =
     (if onFilesChange p then s\<lparr>notified' := notified' s @ [fs]\<rparr> else s)"

definition processFiles' :: "props \<Rightarrow> state' \<Rightarrow> fileId list \<Rightarrow> state'" where
  "processFiles' p s fileList =
     (case forEachFile' p s fileList of (newFiles, errors, s1) \<Rightarrow>
        let s2 = (if length errors > 0
                  then s1\<lparr>error' := Some (hd errors), timers' := timers' s1 @ [now' s1 + 5000]\<rparr>
                  else s1\<lparr>error' := None\<rparr>)
        in if length newFiles > 0
           then (let updatedFiles = files' s @ newFiles
                 in callOnFilesChange' p updatedFiles (s2\<lparr>files' := updatedFiles\<rparr>))
           else s2)"

definition removeFile' :: "props \<Rightarrow> state' \<Rightarrow> int \<Rightarrow> exception option \<times> state'" where
  "removeFile' p s index =
     (let updatedFiles = filterNotIndex (files' s) index
      in case atIndex (files' s) index of
           None \<Rightarrow> (Some TypeError, s)
         | Some fileToRemove \<Rightarrow>
             let s1 = (case preview (heap s fileToRemove) of
                         Some u \<Rightarrow> s\<lparr>revoked' := revoked' s @ [u]\<rparr>
                       | None \<Rightarrow> s)
             in (None, callOnFilesChange' p updatedFiles (s1\<lparr>files' := updatedFiles\<rparr>)))"

definition elapse' :: "nat \<Rightarrow> state' \<Rightarrow> state'" where
  "elapse' d s =
     (let t = now' s + d;
          due = filter (\<lambda>x. x \<le> t) (timers' s);
          s1 = s\<lparr>now' := t, timers' := filter (\<lambda>x. \<not> x \<le> t) (timers' s)\<rparr>
      in if due = [] then s1 else s1\<lparr>error' := None\<rparr>)"

text \<open>
  The component registers no effect and no cleanup (it uses \<open>useState\<close> and
  \<open>useCallback\<close> only), so when React disposes of it no code of the component runs:
  no object URL is revoked and no timer is cancelled.
\<close>

definition unmount :: "state' \<Rightarrow> state'" where
  "unmount s = s"

datatype event' = SubmitBatch' "fileId list" | RemoveEntry' int | Elapse' nat

fun step' :: "props \<Rightarrow> state' \<Rightarrow> event' \<Rightarrow> state'" where
  "step' p s (SubmitBatch' fileList) = processFiles' p s fileList"
| "step' p s (RemoveEntry' index) = snd (removeFile' p s index)"
| "step' p s (Elapse' d) = elapse' d s"

definition run' :: "props \<Rightarrow> (fileId \<Rightarrow> File) \<Rightarrow> event' list \<Rightarrow> state'" where
  "run' p objects evs = foldl (step' p) (initialState' objects) evs"

text \<open>The object URLs that the entries of \<open>files\<close> hold, in order.\<close>

definition heldHandles :: "state' \<Rightarrow> objectURL list" where
  "heldHandles s = previewHandles (map (heap s) (files' s))"

text \<open>
  A run hands over distinct File objects when every batch lists each object once and
  lists none that is in \<open>files\<close> at that moment.
\<close>

fun distinctFiles :: "props \<Rightarrow> state' \<Rightarrow> event' list \<Rightarrow> bool" where
  "distinctFiles p s [] = True"
| "distinctFiles p s (SubmitBatch' fileList # evs) =
     (distinct fileList \<and> set fileList \<inter> set (files' s) = {}
      \<and> distinctFiles p (processFiles' p s fileList) evs)"
| "distinctFiles p s (ev # evs) = distinctFiles p (step' p s ev) evs"

text \<open>
  The bookkeeping of object URLs for the objects listed in \<open>ids\<close>: no object is listed
  twice, only images have a preview, and every URL created so far is either in the
  revocation log or the preview of a listed object, and appears there once.
\<close>

definition accounted :: "fileId list \<Rightarrow> state' \<Rightarrow> bool" where
  "accounted ids s =
     (distinct ids
      \<and> (\<forall>r. preview (heap s r) \<noteq> None \<longrightarrow> startsWith (type_file (heap s r)) ''image/'')
      \<and> distinct (revoked' s @ previewHandles (map (heap s) ids))
      \<and> set (revoked' s) \<union> set (previewHandles (map (heap s) ids)) = {..<nextURL' s})"

subsection \<open>Sample inputs\<close>

definition photo :: File where
  "photo = \<lparr>name = ''photo.PNG'', size_file = 500, type_file = ''image/png''\<rparr>"

definition memo :: File where
  "memo = \<lparr>name = ''MEMO.TXT'', size_file = 20, type_file = ''text/plain''\<rparr>"

definition movie :: File where
  "movie = \<lparr>name = ''movie.png'', size_file = 20000000, type_file = ''image/png''\<rparr>"

definition program :: File where
  "program = \<lparr>name = ''setup.exe'', size_file = 100, type_file = ''application/x-msdownload''\<rparr>"

definition scan :: File where
  "scan = \<lparr>name = ''scan.bin'', size_file = 20, type_file = ''images/png''\<rparr>"

definition oneFileProps :: props where
  "oneFileProps = defaultProps\<lparr>maxFiles := 1\<rparr>"

text \<open>Object 1 is the memo, every other object is a photo.\<close>

definition sampleObjects :: "fileId \<Rightarrow> File" where
  "sampleObjects r = (if r = 1 then memo else photo)"

section \<open>Properties\<close>

subsection \<open>Strings and messages\<close>

text \<open>The definitions that evaluate the handlers on the sample inputs.\<close>

lemmas eval_defs = validateFile_def isValidTypeRule_def startsWith_def endsWith_def
  includes_str_def splitSlashFirst_def toLowerCase_def lowerChar_def tooLargeMessage_def
  unsupportedMessage_def capacityMessage_def roundMB_def numberToString.simps digit_def
  defaultProps_def oneFileProps_def photo_def memo_def movie_def program_def scan_def
  rejectionMessage_def forEachFile_def forEachCallback_def createObjectURL_def
  asFileWithPreview_def initialState_def processFiles_def setError_def setFiles_def
  setTimeout_def callOnFilesChange_def Let_def removeFile_def atIndex_def filterNotIndex_def
  revokeObjectURL_def elapse_def run_def unmount_def initialState'_def forEachCallback'_def
  forEachFile'_def callOnFilesChange'_def processFiles'_def removeFile'_def elapse'_def
  run'_def heldHandles_def sampleObjects_def

lemma startsWith_iff: "startsWith s p \<longleftrightarrow> (\<exists>r. s = p @ r)"
  unfolding startsWith_def by (metis append_eq_conv_conj append_take_drop_id)

lemma numberToString_nonempty: "numberToString n \<noteq> []"
  by (subst numberToString.simps) simp

text \<open>Each message of \<open>validateFile\<close> is a non-empty string and differs from the capacity message.\<close>

lemma validateFile_truthy: "validateFile p f = Some e \<Longrightarrow> e \<noteq> []"
  by (auto simp: validateFile_def tooLargeMessage_def unsupportedMessage_def Let_def
      split: if_splits)

lemma validateFile_not_capacity: "validateFile p f = Some e \<Longrightarrow> e \<noteq> capacityMessage q"
  by (auto simp: validateFile_def tooLargeMessage_def unsupportedMessage_def capacityMessage_def
      Let_def split: if_splits)

subsection \<open>The loop of \<open>processFiles\<close>\<close>

lemma previewHandles_append: "previewHandles (a @ b) = previewHandles a @ previewHandles b"
  by (induction a) (auto split: option.splits)

lemma callback_invalid:
  "validateFile p f = Some e \<Longrightarrow> forEachCallback p fs (nf, er, s) f = (nf, er @ [e], s)"
  by (simp add: forEachCallback_def)

lemma callback_full:
  "validateFile p f = None \<Longrightarrow> maxFiles p \<le> length fs + length nf \<Longrightarrow>
   forEachCallback p fs (nf, er, s) f = (nf, er @ [capacityMessage p], s)"
  by (simp add: forEachCallback_def)

lemma callback_image:
  "validateFile p f = None \<Longrightarrow> length fs + length nf < maxFiles p \<Longrightarrow>
   startsWith (type_file f) ''image/'' \<Longrightarrow>
   forEachCallback p fs (nf, er, s) f =
     (nf @ [(asFileWithPreview f)\<lparr>preview := Some (nextURL s)\<rparr>], er,
      s\<lparr>nextURL := Suc (nextURL s)\<rparr>)"
  by (simp add: forEachCallback_def createObjectURL_def)

lemma callback_other:
  "validateFile p f = None \<Longrightarrow> length fs + length nf < maxFiles p \<Longrightarrow>
   \<not> startsWith (type_file f) ''image/'' \<Longrightarrow>
   forEachCallback p fs (nf, er, s) f = (nf @ [asFileWithPreview f], er, s)"
  by (simp add: forEachCallback_def)

lemma callback_cases [case_names invalid full image other]:
  obtains e where "validateFile p f = Some e"
      and "forEachCallback p fs (nf, er, s) f = (nf, er @ [e], s)"
  | "validateFile p f = None" and "maxFiles p \<le> length fs + length nf"
      and "forEachCallback p fs (nf, er, s) f = (nf, er @ [capacityMessage p], s)"
  | "validateFile p f = None" and "length fs + length nf < maxFiles p"
      and "startsWith (type_file f) ''image/''"
      and "forEachCallback p fs (nf, er, s) f =
         (nf @ [(asFileWithPreview f)\<lparr>preview := Some (nextURL s)\<rparr>], er,
          s\<lparr>nextURL := Suc (nextURL s)\<rparr>)"
  | "validateFile p f = None" and "length fs + length nf < maxFiles p"
      and "\<not> startsWith (type_file f) ''image/''"
      and "forEachCallback p fs (nf, er, s) f = (nf @ [asFileWithPreview f], er, s)"
proof (cases "validateFile p f")
  case (Some e)
  then show ?thesis using that(1) callback_invalid by blast
next
  case None
  show ?thesis
  proof (cases "maxFiles p \<le> length fs + length nf")
    case True
    then show ?thesis using None that(2) callback_full by blast
  next
    case False
    then have lt: "length fs + length nf < maxFiles p" by simp
    show ?thesis
    proof (cases "startsWith (type_file f) ''image/''")
      case True
      then show ?thesis using None lt that(3) callback_image by blast
    next
      case False
      then show ?thesis using None lt that(4) callback_other by blast
    qed
  qed
qed

lemma loop_full:
  "maxFiles p \<le> length fs + length nf \<Longrightarrow>
   foldl (forEachCallback p fs) (nf, er, s) xs = (nf, er @ map (rejectionMessage p) xs, s)"
proof (induction xs arbitrary: er)
  case Nil
  then show ?case by simp
next
  case (Cons f xs)
  have "forEachCallback p fs (nf, er, s) f = (nf, er @ [rejectionMessage p f], s)"
    using Cons.prems
    by (cases "validateFile p f") (simp_all add: callback_invalid callback_full rejectionMessage_def)
  then show ?case using Cons by simp
qed

lemma loop_all_staged:
  "\<forall>f\<in>set xs. validateFile p f = None \<Longrightarrow>
   length fs + length nf + length xs \<le> maxFiles p \<Longrightarrow>
   \<exists>nf' s'. foldl (forEachCallback p fs) (nf, er, s) xs = (nf @ nf', er, s')
      \<and> length nf' = length xs"
proof (induction xs arbitrary: nf s)
  case Nil
  then show ?case by simp
next
  case (Cons f xs)
  from Cons.prems have v: "validateFile p f = None" and lt: "length fs + length nf < maxFiles p"
    by auto
  obtain e s1 where step: "forEachCallback p fs (nf, er, s) f = (nf @ [e], er, s1)"
    using callback_image[OF v lt] callback_other[OF v lt] by metis
  have "\<exists>nf' s'. foldl (forEachCallback p fs) (nf @ [e], er, s1) xs = ((nf @ [e]) @ nf', er, s')
      \<and> length nf' = length xs"
    using Cons.prems by (intro Cons.IH) auto
  then obtain nf' s' where
    "foldl (forEachCallback p fs) (nf @ [e], er, s1) xs = (nf @ e # nf', er, s')"
    "length nf' = length xs" by auto
  then show ?case using step by (intro exI[of _ "e # nf'"] exI[of _ s']) simp
qed

lemma validateFile_None_size: "validateFile p f = None \<Longrightarrow> size_file f \<le> maxSize p"
  by (auto simp: validateFile_def split: if_splits)

lemma loop_shape:
  "\<exists>nf' er' k. foldl (forEachCallback p fs) (nf, er, s) xs =
       (nf @ nf', er @ er', s\<lparr>nextURL := nextURL s + k\<rparr>)
     \<and> previewHandles nf' = [nextURL s ..< nextURL s + k]
     \<and> length nf' + length er' = length xs
     \<and> (\<forall>e\<in>set nf'. (preview e \<noteq> None) = startsWith (type_file e) ''image/''
            \<and> size_file e \<le> maxSize p)"
proof (induction xs arbitrary: nf er s)
  case Nil
  show ?case by (intro exI[of _ "[]"] exI[of _ 0]) simp
next
  case (Cons f xs)
  show ?case
  proof (cases rule: callback_cases[of p f fs nf er s])
    case (invalid e)
    from Cons[of nf "er @ [e]" s] obtain nf' er' k where
      "foldl (forEachCallback p fs) (nf, er @ [e], s) xs =
         (nf @ nf', (er @ [e]) @ er', s\<lparr>nextURL := nextURL s + k\<rparr>)"
      "previewHandles nf' = [nextURL s ..< nextURL s + k]"
      "length nf' + length er' = length xs"
      "\<forall>e\<in>set nf'. (preview e \<noteq> None) = startsWith (type_file e) ''image/''
            \<and> size_file e \<le> maxSize p"
      by blast
    then show ?thesis using invalid(2)
      by (intro exI[of _ nf'] exI[of _ "e # er'"] exI[of _ k]) simp
  next
    case full
    from Cons[of nf "er @ [capacityMessage p]" s] obtain nf' er' k where
      "foldl (forEachCallback p fs) (nf, er @ [capacityMessage p], s) xs =
         (nf @ nf', (er @ [capacityMessage p]) @ er', s\<lparr>nextURL := nextURL s + k\<rparr>)"
      "previewHandles nf' = [nextURL s ..< nextURL s + k]"
      "length nf' + length er' = length xs"
      "\<forall>e\<in>set nf'. (preview e \<noteq> None) = startsWith (type_file e) ''image/''
            \<and> size_file e \<le> maxSize p"
      by blast
    then show ?thesis using full(3)
      by (intro exI[of _ nf'] exI[of _ "capacityMessage p # er'"] exI[of _ k]) simp
  next
    case image
    define e where "e = (asFileWithPreview f)\<lparr>preview := Some (nextURL s)\<rparr>"
    define s1 where "s1 = s\<lparr>nextURL := Suc (nextURL s)\<rparr>"
    from Cons[of "nf @ [e]" er s1] obtain nf' er' k where r:
      "foldl (forEachCallback p fs) (nf @ [e], er, s1) xs =
         ((nf @ [e]) @ nf', er @ er', s1\<lparr>nextURL := nextURL s1 + k\<rparr>)"
      "previewHandles nf' = [nextURL s1 ..< nextURL s1 + k]"
      "length nf' + length er' = length xs"
      "\<forall>e\<in>set nf'. (preview e \<noteq> None) = startsWith (type_file e) ''image/''
            \<and> size_file e \<le> maxSize p"
      by blast
    have e: "preview e = Some (nextURL s)" "type_file e = type_file f" "size_file e = size_file f"
      by (simp_all add: e_def asFileWithPreview_def)
    have h: "previewHandles (e # nf') = [nextURL s ..< nextURL s + Suc k]"
      using r(2) e(1) by (simp add: s1_def upt_conv_Cons)
    have st: "s1\<lparr>nextURL := nextURL s1 + k\<rparr> = s\<lparr>nextURL := nextURL s + Suc k\<rparr>"
      by (simp add: s1_def)
    have "foldl (forEachCallback p fs) (nf, er, s) (f # xs) =
        (nf @ e # nf', er @ er', s\<lparr>nextURL := nextURL s + Suc k\<rparr>)"
      using image(4) r(1) st by (simp add: e_def s1_def)
    moreover have "\<forall>x\<in>set (e # nf'). (preview x \<noteq> None) = startsWith (type_file x) ''image/''
            \<and> size_file x \<le> maxSize p"
      using r(4) e image(3) validateFile_None_size[OF image(1)] by simp
    ultimately show ?thesis using h r(3)
      by (intro exI[of _ "e # nf'"] exI[of _ er'] exI[of _ "Suc k"]) simp
  next
    case other
    define e where "e = asFileWithPreview f"
    from Cons[of "nf @ [e]" er s] obtain nf' er' k where r:
      "foldl (forEachCallback p fs) (nf @ [e], er, s) xs =
         ((nf @ [e]) @ nf', er @ er', s\<lparr>nextURL := nextURL s + k\<rparr>)"
      "previewHandles nf' = [nextURL s ..< nextURL s + k]"
      "length nf' + length er' = length xs"
      "\<forall>e\<in>set nf'. (preview e \<noteq> None) = startsWith (type_file e) ''image/''
            \<and> size_file e \<le> maxSize p"
      by blast
    have e: "preview e = None" "type_file e = type_file f" "size_file e = size_file f"
      by (simp_all add: e_def asFileWithPreview_def)
    have "foldl (forEachCallback p fs) (nf, er, s) (f # xs) =
        (nf @ e # nf', er @ er', s\<lparr>nextURL := nextURL s + k\<rparr>)"
      using other(4) r(1) by (simp add: e_def)
    moreover have "\<forall>x\<in>set (e # nf'). (preview x \<noteq> None) = startsWith (type_file x) ''image/''
            \<and> size_file x \<le> maxSize p"
      using r(4) e other(3) validateFile_None_size[OF other(1)] by simp
    moreover have "previewHandles (e # nf') = [nextURL s ..< nextURL s + k]"
      using r(2) e(1) by simp
    ultimately show ?thesis using r(3)
      by (intro exI[of _ "e # nf'"] exI[of _ er'] exI[of _ k]) simp
  qed
qed

lemma loop_capacity:
  "length fs + length nf \<le> maxFiles p \<Longrightarrow>
   length fs + length (fst (foldl (forEachCallback p fs) (nf, er, s) xs)) \<le> maxFiles p"
proof (induction xs arbitrary: nf er s)
  case Nil
  then show ?case by simp
next
  case (Cons f xs)
  show ?case
    by (cases rule: callback_cases[of p f fs nf er s]) (use Cons in auto)
qed

lemma processFiles_eq:
  assumes "forEachFile p s batch = (nf, er, s\<lparr>nextURL := n\<rparr>)"
  shows "processFiles p s batch =
     s\<lparr>files := files s @ nf,
       error := (if er = [] then None else Some (hd er)),
       timers := (if er = [] then timers s else timers s @ [now s + 5000]),
       nextURL := n,
       notified := (if nf \<noteq> [] \<and> onFilesChange p then notified s @ [files s @ nf]
                    else notified s)\<rparr>"
  using assms
  by (simp add: processFiles_def setFiles_def setError_def setTimeout_def
      callOnFilesChange_def Let_def)

subsection \<open>\<open>removeFile\<close> in and out of range\<close>

lemma enumerate_filter_index:
  "map snd (filter (\<lambda>(j, x). int j \<noteq> i) (enumerate n xs)) =
     (if int n \<le> i \<and> i < int (n + length xs)
      then take (nat i - n) xs @ drop (Suc (nat i - n)) xs else xs)"
proof (induction xs arbitrary: n)
  case Nil
  then show ?case by simp
next
  case (Cons x xs)
  show ?case
  proof (cases "int n = i")
    case True
    then have "map snd (filter (\<lambda>(j, x). int j \<noteq> i) (enumerate (Suc n) xs)) = xs"
      using Cons[of "Suc n"] by simp
    then show ?thesis using True by auto
  next
    case False
    show ?thesis
    proof (cases "int n < i \<and> i < int (n + length (x # xs))")
      case True
      then have d: "nat i - n = Suc (nat i - Suc n)" by linarith
      show ?thesis using True False Cons[of "Suc n"] by (simp add: d)
    next
      case out: False
      then show ?thesis using False Cons[of "Suc n"] by auto
    qed
  qed
qed

lemma filterNotIndex_in:
  "0 \<le> i \<Longrightarrow> i < int (length xs) \<Longrightarrow>
   filterNotIndex xs i = take (nat i) xs @ drop (Suc (nat i)) xs"
  by (simp add: filterNotIndex_def enumerate_filter_index)

lemma filterNotIndex_out:
  "i < 0 \<or> int (length xs) \<le> i \<Longrightarrow> filterNotIndex xs i = xs"
  by (auto simp: filterNotIndex_def enumerate_filter_index)

lemma removeFile_out:
  "i < 0 \<or> int (length (files s)) \<le> i \<Longrightarrow> removeFile p s i = (Some TypeError, s)"
  by (auto simp: removeFile_def atIndex_def Let_def)

lemma removeFile_in:
  assumes "0 \<le> i" "i < int (length (files s))"
  shows "removeFile p s i =
    (None, s\<lparr>files := take (nat i) (files s) @ drop (Suc (nat i)) (files s),
              revoked := revoked s @ (case preview (files s ! nat i) of Some u \<Rightarrow> [u] | None \<Rightarrow> []),
              notified := (if onFilesChange p
                 then notified s @ [take (nat i) (files s) @ drop (Suc (nat i)) (files s)]
                 else notified s)\<rparr>)"
  using assms
  by (simp add: removeFile_def atIndex_def Let_def filterNotIndex_in setFiles_def
      callOnFilesChange_def revokeObjectURL_def split: option.splits)

subsection \<open>Oversized candidates\<close>



subsection \<open>The capacity point inside a batch\<close>

text \<open>
  C1 (as the code has it). When a candidate passes \<open>validateFile\<close> while
  \<open>files.length + newFiles.length >= maxFiles\<close>, the capacity message is recorded for
  it and nothing more is staged in this call. The loop does not stop, though: each later
  candidate is still validated, and what is recorded for it is its own validation
  message if it has one and the capacity message otherwise (\<open>rejectionMessage\<close>).
\<close>

theorem capacity_point:
  "validateFile p c = None \<Longrightarrow> maxFiles p \<le> length fs + length nf \<Longrightarrow>
   foldl (forEachCallback p fs) (nf, er, s) (c # rest) =
     (nf, er @ capacityMessage p # map (rejectionMessage p) rest, s)"
  using loop_full[of p fs nf "er" s "c # rest"]
  by (simp add: rejectionMessage_def)

theorem capacity_point_witness:
  \<open>validateFile oneFileProps memo = None
   \<and> maxFiles oneFileProps \<le> length ([] :: FileWithPreview list) + length [asFileWithPreview photo]
   \<and> foldl (forEachCallback oneFileProps []) ([asFileWithPreview photo], [], initialState)
        [memo, movie, photo] =
      ([asFileWithPreview photo],
       [''Maximum 1 files allowed.'', ''File "movie.png" is too large. Maximum size is 10MB.'',
        ''Maximum 1 files allowed.''], initialState)\<close>
proof -
  have v: "validateFile oneFileProps memo = None" by (simp add: eval_defs)
  have m: "maxFiles oneFileProps \<le> length ([] :: FileWithPreview list) + length [asFileWithPreview photo]"
    by (simp add: oneFileProps_def defaultProps_def)
  have r: \<open>map (rejectionMessage oneFileProps) [movie, photo] =
     [''File "movie.png" is too large. Maximum size is 10MB.'', ''Maximum 1 files allowed.'']\<close>
    by (simp add: eval_defs)
  have c: "capacityMessage oneFileProps = ''Maximum 1 files allowed.''" by (simp add: eval_defs)
  show ?thesis
    using capacity_point[OF v m, of "[]" initialState "[movie, photo]"] v m r c by simp
qed

text \<open>
  With room for one file, the third candidate comes after the capacity point and is
  recorded as too large, not as over capacity.
\<close>

theorem capacity_stops_batch_counterexample:
  \<open>forEachFile oneFileProps initialState [photo, memo, movie] =
     ([(asFileWithPreview photo)\<lparr>preview := Some 0\<rparr>],
      [''Maximum 1 files allowed.'', ''File "movie.png" is too large. Maximum size is 10MB.''],
      initialState\<lparr>nextURL := 1\<rparr>)\<close>
  by (simp add: eval_defs)

subsection \<open>Removing at an index that is out of range\<close>

text \<open>
  C3 (as the code has it). For an index outside \<open>[0, files.length)\<close>, \<open>removeFile\<close>
  changes nothing: the entries, their preview handles, the revocation log and the
  notification log stay as they were. It does so by throwing: \<open>files[index]\<close> is
  \<open>undefined\<close> and reading its \<open>preview\<close> raises a \<open>TypeError\<close> that leaves the handler.
\<close>

theorem remove_out_of_range:
  "index < 0 \<or> int (length (files s)) \<le> index \<Longrightarrow> removeFile p s index = (Some TypeError, s)"
  by (rule removeFile_out)

theorem remove_out_of_range_witness:
  "int (length (files (run defaultProps [SubmitBatch [photo, memo]]))) \<le> 5
   \<and> removeFile defaultProps (run defaultProps [SubmitBatch [photo, memo]]) 5 =
       (Some TypeError, run defaultProps [SubmitBatch [photo, memo]])"
proof -
  have l: "int (length (files (run defaultProps [SubmitBatch [photo, memo]]))) \<le> 5"
    by (simp add: eval_defs)
  then show ?thesis
    using remove_out_of_range[of 5 "run defaultProps [SubmitBatch [photo, memo]]" defaultProps]
    by simp
qed

text \<open>\<open>removeFile(5)\<close> on two entries ends with an exception.\<close>

theorem remove_out_of_range_counterexample:
  "length (files (run defaultProps [SubmitBatch [photo, memo]])) = 2
   \<and> fst (removeFile defaultProps (run defaultProps [SubmitBatch [photo, memo]]) 5) = Some TypeError"
  by (simp add: eval_defs)

subsection \<open>Notifications\<close>

text \<open>
  C6. With an \<open>onFilesChange\<close> callback in place: a \<open>processFiles\<close> call that stages
  at least one candidate appends the staged entries and calls the callback exactly once,
  with the whole updated list; a call that stages nothing leaves \<open>files\<close> alone and does
  not call it; a \<open>removeFile\<close> call with an index in range deletes that entry and calls
  the callback exactly once, with the whole updated list.
\<close>

theorem notification_contract:
  "onFilesChange p \<Longrightarrow>
     (fst (forEachFile p s batch) \<noteq> [] \<longrightarrow>
        files (processFiles p s batch) = files s @ fst (forEachFile p s batch)
        \<and> notified (processFiles p s batch) = notified s @ [files (processFiles p s batch)])
     \<and> (fst (forEachFile p s batch) = [] \<longrightarrow>
        files (processFiles p s batch) = files s
        \<and> notified (processFiles p s batch) = notified s)
     \<and> (0 \<le> index \<and> index < int (length (files s)) \<longrightarrow>
        fst (removeFile p s index) = None
        \<and> files (snd (removeFile p s index)) =
            take (nat index) (files s) @ drop (Suc (nat index)) (files s)
        \<and> notified (snd (removeFile p s index)) =
            notified s @ [files (snd (removeFile p s index))])"
proof -
  assume cb: "onFilesChange p"
  obtain nf er k where r: "forEachFile p s batch = (nf, er, s\<lparr>nextURL := nextURL s + k\<rparr>)"
    unfolding forEachFile_def using loop_shape[of p "files s" "[]" "[]" s batch] by auto
  show ?thesis
    using cb by (simp add: processFiles_eq[OF r] r removeFile_in)
qed

theorem notification_contract_witness:
  "onFilesChange defaultProps
   \<and> fst (forEachFile defaultProps (run defaultProps [SubmitBatch [photo, memo]]) [scan]) \<noteq> []
   \<and> notified (processFiles defaultProps (run defaultProps [SubmitBatch [photo, memo]]) [scan]) =
       notified (run defaultProps [SubmitBatch [photo, memo]]) @
         [files (processFiles defaultProps (run defaultProps [SubmitBatch [photo, memo]]) [scan])]
   \<and> (0::int) < int (length (files (run defaultProps [SubmitBatch [photo, memo]])))
   \<and> notified (snd (removeFile defaultProps (run defaultProps [SubmitBatch [photo, memo]]) 0)) =
       notified (run defaultProps [SubmitBatch [photo, memo]]) @
         [files (snd (removeFile defaultProps (run defaultProps [SubmitBatch [photo, memo]]) 0))]
   \<and> fst (forEachFile defaultProps initialState [movie, program]) = []
   \<and> notified (processFiles defaultProps initialState [movie, program]) = notified initialState"
proof -
  have cb: "onFilesChange defaultProps" by (simp add: defaultProps_def)
  have a: "fst (forEachFile defaultProps (run defaultProps [SubmitBatch [photo, memo]]) [scan]) \<noteq> []"
    by (simp add: eval_defs)
  have b: "(0::int) < int (length (files (run defaultProps [SubmitBatch [photo, memo]])))"
    by (simp add: eval_defs)
  have c: "fst (forEachFile defaultProps initialState [movie, program]) = []"
    by (simp add: eval_defs)
  show ?thesis
    using notification_contract[OF cb, of "run defaultProps [SubmitBatch [photo, memo]]" "[scan]" 0]
      notification_contract[OF cb, of initialState "[movie, program]" 0] cb a b c
    by simp
qed

subsection \<open>The error that is shown\<close>

lemma error_elapse:
  "error (elapse d s) = (if \<exists>t\<in>set (timers s). t \<le> now s + d then None else error s)"
  by (auto simp: elapse_def setError_def Let_def filter_empty_conv)

text \<open>
  C7. If the candidates before \<open>c\<close> are all staged and \<open>c\<close> is rejected with message
  \<open>m\<close> (by \<open>validateFile\<close>, or for capacity), then after the call \<open>error\<close> is \<open>m\<close>,
  whatever comes after \<open>c\<close>, and one more \<open>setError(null)\<close> is queued for 5000 ms
  later: once 5000 ms have passed \<open>error\<close> is \<open>null\<close>, and as long as neither this
  timer nor one queued earlier has come due \<open>error\<close> is still \<open>m\<close>. If every candidate
  of the batch is staged, \<open>error\<close> is cleared at once and no timer is queued.
\<close>

theorem first_rejection_shown:
  "((\<forall>f\<in>set pre. validateFile p f = None)
      \<and> (pre \<noteq> [] \<longrightarrow> length (files s) + length pre \<le> maxFiles p)
      \<and> (validateFile p c = Some m
           \<or> validateFile p c = None \<and> maxFiles p \<le> length (files s) + length pre
              \<and> m = capacityMessage p)
      \<longrightarrow> error (processFiles p s (pre @ c # post)) = Some m
          \<and> timers (processFiles p s (pre @ c # post)) = timers s @ [now s + 5000]
          \<and> (5000 \<le> d \<longrightarrow> error (elapse d (processFiles p s (pre @ c # post))) = None)
          \<and> (d < 5000 \<and> (\<forall>t\<in>set (timers s). now s + d < t) \<longrightarrow>
               error (elapse d (processFiles p s (pre @ c # post))) = Some m))
   \<and> ((\<forall>f\<in>set batch. validateFile p f = None)
      \<and> (batch \<noteq> [] \<longrightarrow> length (files s) + length batch \<le> maxFiles p)
      \<longrightarrow> error (processFiles p s batch) = None
          \<and> timers (processFiles p s batch) = timers s)"
proof -
  have rejected: "(\<forall>f\<in>set pre. validateFile p f = None)
      \<and> (pre \<noteq> [] \<longrightarrow> length (files s) + length pre \<le> maxFiles p)
      \<and> (validateFile p c = Some m
           \<or> validateFile p c = None \<and> maxFiles p \<le> length (files s) + length pre
              \<and> m = capacityMessage p)
      \<longrightarrow> error (processFiles p s (pre @ c # post)) = Some m
          \<and> timers (processFiles p s (pre @ c # post)) = timers s @ [now s + 5000]
          \<and> (5000 \<le> d \<longrightarrow> error (elapse d (processFiles p s (pre @ c # post))) = None)
          \<and> (d < 5000 \<and> (\<forall>t\<in>set (timers s). now s + d < t) \<longrightarrow>
               error (elapse d (processFiles p s (pre @ c # post))) = Some m)"
  proof
    assume a: "(\<forall>f\<in>set pre. validateFile p f = None)
      \<and> (pre \<noteq> [] \<longrightarrow> length (files s) + length pre \<le> maxFiles p)
      \<and> (validateFile p c = Some m
           \<or> validateFile p c = None \<and> maxFiles p \<le> length (files s) + length pre
              \<and> m = capacityMessage p)"
    have "\<exists>nf1 s1. foldl (forEachCallback p (files s)) ([], [], s) pre = (nf1, [], s1)
      \<and> length nf1 = length pre"
    proof (cases "pre = []")
      case True
      then show ?thesis by simp
    next
      case False
      then show ?thesis
        using a loop_all_staged[of pre p "files s" "[]" "[]" s] by auto
    qed
    then obtain nf1 s1 where pre:
      "foldl (forEachCallback p (files s)) ([], [], s) pre = (nf1, [], s1)"
      "length nf1 = length pre" by blast
    have c: "forEachCallback p (files s) (nf1, [], s1) c = (nf1, [m], s1)"
      using a pre(2) callback_invalid[of p c m "files s" nf1 "[]" s1]
        callback_full[of p c "files s" nf1 "[]" s1] by auto
    obtain nf' er' k where post:
      "foldl (forEachCallback p (files s)) (nf1, [m], s1) post =
         (nf1 @ nf', [m] @ er', s1\<lparr>nextURL := nextURL s1 + k\<rparr>)"
      using loop_shape[of p "files s" nf1 "[m]" s1 post] by blast
    obtain nf er j where all:
      "forEachFile p s (pre @ c # post) = (nf, er, s\<lparr>nextURL := nextURL s + j\<rparr>)"
      unfolding forEachFile_def
      using loop_shape[of p "files s" "[]" "[]" s "pre @ c # post"] by auto
    have "er = m # er'"
      using all pre(1) c post by (simp add: forEachFile_def)
    then have e: "error (processFiles p s (pre @ c # post)) = Some m"
      and t: "timers (processFiles p s (pre @ c # post)) = timers s @ [now s + 5000]"
      and n: "now (processFiles p s (pre @ c # post)) = now s"
      by (simp_all add: processFiles_eq[OF all])
    have clear: "5000 \<le> d \<longrightarrow> error (elapse d (processFiles p s (pre @ c # post))) = None"
    proof
      assume "5000 \<le> d"
      then have "\<exists>x\<in>set (timers s @ [now s + 5000]). x \<le> now s + d" by simp
      then show "error (elapse d (processFiles p s (pre @ c # post))) = None"
        unfolding error_elapse n t by simp
    qed
    have stay: "d < 5000 \<and> (\<forall>t\<in>set (timers s). now s + d < t) \<longrightarrow>
        error (elapse d (processFiles p s (pre @ c # post))) = Some m"
    proof
      assume "d < 5000 \<and> (\<forall>t\<in>set (timers s). now s + d < t)"
      then have "\<forall>x\<in>set (timers s @ [now s + 5000]). \<not> x \<le> now s + d"
        by (simp add: not_le)
      then have "\<not> (\<exists>x\<in>set (timers s @ [now s + 5000]). x \<le> now s + d)"
        by blast
      then show "error (elapse d (processFiles p s (pre @ c # post))) = Some m"
        unfolding error_elapse n t using e by simp
    qed
    show "error (processFiles p s (pre @ c # post)) = Some m
          \<and> timers (processFiles p s (pre @ c # post)) = timers s @ [now s + 5000]
          \<and> (5000 \<le> d \<longrightarrow> error (elapse d (processFiles p s (pre @ c # post))) = None)
          \<and> (d < 5000 \<and> (\<forall>t\<in>set (timers s). now s + d < t) \<longrightarrow>
               error (elapse d (processFiles p s (pre @ c # post))) = Some m)"
      using e t clear stay by (intro conjI)
  qed
  have staged: "(\<forall>f\<in>set batch. validateFile p f = None)
      \<and> (batch \<noteq> [] \<longrightarrow> length (files s) + length batch \<le> maxFiles p)
      \<longrightarrow> error (processFiles p s batch) = None
          \<and> timers (processFiles p s batch) = timers s"
  proof
    assume b: "(\<forall>f\<in>set batch. validateFile p f = None)
      \<and> (batch \<noteq> [] \<longrightarrow> length (files s) + length batch \<le> maxFiles p)"
    have "\<exists>nf1 s1. foldl (forEachCallback p (files s)) ([], [], s) batch = (nf1, [], s1)"
    proof (cases "batch = []")
      case True
      then show ?thesis by simp
    next
      case False
      then show ?thesis
        using b loop_all_staged[of batch p "files s" "[]" "[]" s] by auto
    qed
    then obtain nf1 s1 where r1: "forEachFile p s batch = (nf1, [], s1)"
      by (auto simp: forEachFile_def)
    obtain nf er j where all:
      "forEachFile p s batch = (nf, er, s\<lparr>nextURL := nextURL s + j\<rparr>)"
      unfolding forEachFile_def
      using loop_shape[of p "files s" "[]" "[]" s batch] by auto
    have "er = []" using all r1 by simp
    then show "error (processFiles p s batch) = None
          \<and> timers (processFiles p s batch) = timers s"
      by (simp add: processFiles_eq[OF all])
  qed
  show ?thesis using rejected staged by (rule conjI)
qed

theorem first_rejection_shown_witness:
  "validateFile oneFileProps photo = None
   \<and> length (files initialState) + length [photo] \<le> maxFiles oneFileProps
   \<and> validateFile oneFileProps memo = None
   \<and> error (processFiles oneFileProps initialState ([photo] @ memo # [movie])) =
       Some ''Maximum 1 files allowed.''
   \<and> timers (processFiles oneFileProps initialState ([photo] @ memo # [movie])) =
       timers initialState @ [now initialState + 5000]
   \<and> error (elapse 5000 (processFiles oneFileProps initialState ([photo] @ memo # [movie]))) =
       None
   \<and> error (processFiles oneFileProps initialState [photo]) = None
   \<and> timers (processFiles oneFileProps initialState [photo]) = timers initialState"
proof -
  have v1: "validateFile oneFileProps photo = None" by (simp add: eval_defs)
  have v2: "validateFile oneFileProps memo = None" by (simp add: eval_defs)
  have l: "length (files initialState) + length [photo] \<le> maxFiles oneFileProps"
    by (simp add: eval_defs)
  have c: "capacityMessage oneFileProps = ''Maximum 1 files allowed.''"
    by (simp add: eval_defs)
  have mf: "maxFiles oneFileProps = 1" "files initialState = []"
    by (simp_all add: eval_defs)
  show ?thesis
    using first_rejection_shown[where pre = "[photo]" and p = oneFileProps and s = initialState
        and c = memo and m = "capacityMessage oneFileProps" and post = "[movie]"
        and batch = "[photo]" and d = 5000] v1 v2 c
    by (simp add: mf)
qed

subsection \<open>Preview handles are made for staged images only\<close>

lemma length_previewHandles:
  "length (previewHandles es) = length (filter (\<lambda>e. preview e \<noteq> None) es)"
  by (induction es) (auto split: option.splits)

text \<open>
  C10. In one pass of the loop over a batch, the object URLs created are exactly the
  previews of the staged entries, one each and in order; a staged entry has a preview
  if and only if its type starts with \<open>image/\<close>, so the number of URLs created is the
  number of staged images; the loop touches nothing else of the state; every candidate
  is either staged or has one message recorded; and a candidate for which a message is
  recorded (too large, unsupported type or over capacity) creates no URL and stages
  nothing.
\<close>

theorem preview_only_for_staged_images:
  "forEachFile p s batch = (newFiles, errors, s') \<Longrightarrow>
     previewHandles newFiles = [nextURL s ..< nextURL s']
     \<and> (\<forall>e\<in>set newFiles. (preview e \<noteq> None) = startsWith (type_file e) ''image/'')
     \<and> nextURL s' =
         nextURL s + length (filter (\<lambda>e. startsWith (type_file e) ''image/'') newFiles)
     \<and> s' = s\<lparr>nextURL := nextURL s'\<rparr>
     \<and> length newFiles + length errors = length batch
     \<and> (forEachCallback p fs (nf, er, s0) f = (nf1, er1, s1) \<and> er1 \<noteq> er
          \<longrightarrow> nf1 = nf \<and> s1 = s0)"
proof -
  assume r: "forEachFile p s batch = (newFiles, errors, s')"
  obtain nf' er' k where sh:
    "forEachFile p s batch = ([] @ nf', [] @ er', s\<lparr>nextURL := nextURL s + k\<rparr>)"
    "previewHandles nf' = [nextURL s ..< nextURL s + k]"
    "length nf' + length er' = length batch"
    "\<forall>e\<in>set nf'. (preview e \<noteq> None) = startsWith (type_file e) ''image/''
        \<and> size_file e \<le> maxSize p"
    unfolding forEachFile_def using loop_shape[of p "files s" "[]" "[]" s batch] by blast
  from r sh(1) have eq: "newFiles = nf'" "errors = er'" "s' = s\<lparr>nextURL := nextURL s + k\<rparr>"
    by simp_all
  have f: "filter (\<lambda>e. preview e \<noteq> None) nf' =
      filter (\<lambda>e. startsWith (type_file e) ''image/'') nf'"
    using sh(4) by (intro filter_cong) auto
  have "k = length (previewHandles nf')" using sh(2) by simp
  then have k: "k = length (filter (\<lambda>e. startsWith (type_file e) ''image/'') nf')"
    by (simp only: length_previewHandles f)
  have step: "forEachCallback p fs (nf, er, s0) f = (nf1, er1, s1) \<and> er1 \<noteq> er
          \<longrightarrow> nf1 = nf \<and> s1 = s0"
    by (cases rule: callback_cases[of p f fs nf er s0]) auto
  show ?thesis
    using sh(2,3,4) k step unfolding eq by simp
qed

theorem preview_only_for_staged_images_witness:
  \<open>forEachFile defaultProps initialState [photo, movie, memo, program] =
     ([(asFileWithPreview photo)\<lparr>preview := Some 0\<rparr>, asFileWithPreview memo],
      [''File "movie.png" is too large. Maximum size is 10MB.'',
       ''File "setup.exe" is not a supported file type.''],
      initialState\<lparr>nextURL := 1\<rparr>)
   \<and> previewHandles [(asFileWithPreview photo)\<lparr>preview := Some 0\<rparr>, asFileWithPreview memo] =
       [nextURL initialState ..< nextURL (initialState\<lparr>nextURL := 1\<rparr>)]
   \<and> nextURL (initialState\<lparr>nextURL := 1\<rparr>) = nextURL initialState + 1\<close>
proof -
  have r: \<open>forEachFile defaultProps initialState [photo, movie, memo, program] =
     ([(asFileWithPreview photo)\<lparr>preview := Some 0\<rparr>, asFileWithPreview memo],
      [''File "movie.png" is too large. Maximum size is 10MB.'',
       ''File "setup.exe" is not a supported file type.''],
      initialState\<lparr>nextURL := 1\<rparr>)\<close>
    by (simp add: eval_defs)
  note t = preview_only_for_staged_images[OF r]
  have a: "previewHandles [(asFileWithPreview photo)\<lparr>preview := Some 0\<rparr>, asFileWithPreview memo] =
       [nextURL initialState ..< nextURL (initialState\<lparr>nextURL := 1\<rparr>)]"
    using t by (rule conjunct1)
  have b: "nextURL (initialState\<lparr>nextURL := 1\<rparr>) = nextURL initialState + 1"
    by (simp add: initialState_def)
  show ?thesis using r a b by (intro conjI)
qed

subsection \<open>The capacity invariant\<close>

lemma processFiles_capacity:
  assumes "length (files s) \<le> maxFiles p"
  shows "length (files (processFiles p s batch)) \<le> maxFiles p"
proof -
  obtain nf er k where r: "forEachFile p s batch = (nf, er, s\<lparr>nextURL := nextURL s + k\<rparr>)"
    unfolding forEachFile_def using loop_shape[of p "files s" "[]" "[]" s batch] by auto
  have "length (files s) + length (fst (forEachFile p s batch)) \<le> maxFiles p"
    unfolding forEachFile_def using loop_capacity[of "files s" "[]" p "[]" s batch] assms by simp
  then show ?thesis by (simp add: processFiles_eq[OF r] r)
qed

lemma removeFile_capacity:
  "length (files (snd (removeFile p s i))) \<le> length (files s)"
proof (cases "0 \<le> i \<and> i < int (length (files s))")
  case True
  then show ?thesis by (simp add: removeFile_in)
next
  case False
  then have "i < 0 \<or> int (length (files s)) \<le> i" by linarith
  then show ?thesis by (simp add: removeFile_out)
qed

lemma elapse_files: "files (elapse d s) = files s"
  by (simp add: elapse_def setError_def Let_def)

lemma step_capacity:
  "length (files s) \<le> maxFiles p \<Longrightarrow> length (files (step p s ev)) \<le> maxFiles p"
proof (cases ev)
  case (SubmitBatch fileList)
  assume "length (files s) \<le> maxFiles p"
  then show ?thesis using SubmitBatch by (simp add: processFiles_capacity)
next
  case (RemoveEntry i)
  assume "length (files s) \<le> maxFiles p"
  then show ?thesis using RemoveEntry removeFile_capacity[of p s i] by simp
next
  case (Elapse d)
  assume "length (files s) \<le> maxFiles p"
  then show ?thesis using Elapse by (simp add: elapse_files)
qed

lemma steps_capacity:
  "length (files s) \<le> maxFiles p \<Longrightarrow> length (files (foldl (step p) s evs)) \<le> maxFiles p"
  by (induction evs arbitrary: s) (simp_all add: step_capacity)

text \<open>
  C8. Whatever sequence of \<open>processFiles\<close> calls, \<open>removeFile\<close> calls and timer
  firings the component goes through from its initial state, \<open>files\<close> never holds more
  than \<open>maxFiles\<close> entries. In a state that holds exactly \<open>maxFiles\<close> entries, a batch
  stages nothing and leaves \<open>files\<close> as it is; what is recorded for each candidate is
  \<open>rejectionMessage\<close>, which for a candidate that passes \<open>validateFile\<close> is the
  capacity message.
\<close>

theorem capacity_invariant:
  "length (files (run p evs)) \<le> maxFiles p
   \<and> (length (files s) = maxFiles p \<longrightarrow>
        forEachFile p s batch = ([], map (rejectionMessage p) batch, s)
        \<and> files (processFiles p s batch) = files s
        \<and> (\<forall>f\<in>set batch. validateFile p f = None \<longrightarrow>
              rejectionMessage p f = capacityMessage p))"
proof (intro conjI impI)
  show "length (files (run p evs)) \<le> maxFiles p"
    unfolding run_def by (rule steps_capacity) (simp add: initialState_def)
next
  assume full: "length (files s) = maxFiles p"
  then show r: "forEachFile p s batch = ([], map (rejectionMessage p) batch, s)"
    unfolding forEachFile_def using loop_full[of p "files s" "[]" "[]" s batch] by simp
  have e: "forEachFile p s batch =
      ([], map (rejectionMessage p) batch, s\<lparr>nextURL := nextURL s\<rparr>)"
    using r by simp
  show "files (processFiles p s batch) = files s"
    by (subst processFiles_eq[OF e]) simp
  show "\<forall>f\<in>set batch. validateFile p f = None \<longrightarrow> rejectionMessage p f = capacityMessage p"
    by (simp add: rejectionMessage_def)
qed

theorem capacity_invariant_witness:
  \<open>length (files (run oneFileProps [SubmitBatch [photo, memo], RemoveEntry 0, SubmitBatch [scan]]))
     \<le> maxFiles oneFileProps
   \<and> length (files (run oneFileProps [SubmitBatch [photo]])) = maxFiles oneFileProps
   \<and> validateFile oneFileProps memo = None
   \<and> forEachFile oneFileProps (run oneFileProps [SubmitBatch [photo]]) [memo, movie] =
       ([], [''Maximum 1 files allowed.'', ''File "movie.png" is too large. Maximum size is 10MB.''],
        run oneFileProps [SubmitBatch [photo]])
   \<and> files (processFiles oneFileProps (run oneFileProps [SubmitBatch [photo]]) [memo, movie]) =
       files (run oneFileProps [SubmitBatch [photo]])\<close>
proof -
  have l: "length (files (run oneFileProps [SubmitBatch [photo]])) = maxFiles oneFileProps"
    by (simp add: eval_defs)
  have v: "validateFile oneFileProps memo = None" by (simp add: eval_defs)
  have m: \<open>map (rejectionMessage oneFileProps) [memo, movie] =
      [''Maximum 1 files allowed.'', ''File "movie.png" is too large. Maximum size is 10MB.'']\<close>
    by (simp add: eval_defs)
  note t = capacity_invariant[of oneFileProps
      "[SubmitBatch [photo, memo], RemoveEntry 0, SubmitBatch [scan]]"
      "run oneFileProps [SubmitBatch [photo]]" "[memo, movie]"]
  have a: "length (files (run oneFileProps
      [SubmitBatch [photo, memo], RemoveEntry 0, SubmitBatch [scan]])) \<le> maxFiles oneFileProps"
    using t by (rule conjunct1)
  have b: "forEachFile oneFileProps (run oneFileProps [SubmitBatch [photo]]) [memo, movie] =
       ([], map (rejectionMessage oneFileProps) [memo, movie], run oneFileProps [SubmitBatch [photo]])
     \<and> files (processFiles oneFileProps (run oneFileProps [SubmitBatch [photo]]) [memo, movie]) =
       files (run oneFileProps [SubmitBatch [photo]])"
    using t l by blast
  show ?thesis using a b l v unfolding m by (intro conjI) simp_all
qed

subsection \<open>Releasing preview handles\<close>

lemma previewHandles_nth:
  assumes "i < length es"
  shows "previewHandles es =
     previewHandles (take i es) @ (case preview (es ! i) of Some u \<Rightarrow> [u] | None \<Rightarrow> [])
       @ previewHandles (drop (Suc i) es)"
proof -
  have "previewHandles (take i es @ es ! i # drop (Suc i) es) =
     previewHandles (take i es) @ (case preview (es ! i) of Some u \<Rightarrow> [u] | None \<Rightarrow> [])
       @ previewHandles (drop (Suc i) es)"
    by (simp add: previewHandles_append split: option.splits)
  then show ?thesis
    by (simp only: id_take_nth_drop[OF assms, symmetric])
qed

lemma map_upd_other:
  "r \<notin> set ids \<Longrightarrow> map (h(r := x)) ids = map h ids"
  by (induction ids) auto

lemma distinct_snoc_fresh:
  assumes "distinct xs" "set xs = {..<(n::nat)}"
  shows "distinct (xs @ [n])"
  using assms by simp

lemma cover_snoc_fresh:
  assumes "A \<union> B = {..<(n::nat)}"
  shows "A \<union> (B \<union> {n}) = {..<Suc n}"
proof -
  have "A \<union> (B \<union> {n}) = (A \<union> B) \<union> {n}" by blast
  also have "\<dots> = {..<n} \<union> {n}" using assms by simp
  also have "\<dots> = {..<Suc n}" by (simp add: lessThan_Suc)
  finally show ?thesis .
qed

lemma callback'_invalid:
  "validateFile p (heap s r) = Some e \<Longrightarrow>
   forEachCallback' p fs (nf, er, s) r = (nf, er @ [e], s)"
  by (simp add: forEachCallback'_def)

lemma callback'_full:
  "validateFile p (heap s r) = None \<Longrightarrow> maxFiles p \<le> length fs + length nf \<Longrightarrow>
   forEachCallback' p fs (nf, er, s) r = (nf, er @ [capacityMessage p], s)"
  by (simp add: forEachCallback'_def)

lemma callback'_image:
  "validateFile p (heap s r) = None \<Longrightarrow> length fs + length nf < maxFiles p \<Longrightarrow>
   startsWith (type_file (heap s r)) ''image/'' \<Longrightarrow>
   forEachCallback' p fs (nf, er, s) r =
     (nf @ [r], er,
      s\<lparr>heap := (heap s)(r := (heap s r)\<lparr>preview := Some (nextURL' s)\<rparr>),
        nextURL' := Suc (nextURL' s)\<rparr>)"
  by (simp add: forEachCallback'_def)

lemma callback'_other:
  "validateFile p (heap s r) = None \<Longrightarrow> length fs + length nf < maxFiles p \<Longrightarrow>
   \<not> startsWith (type_file (heap s r)) ''image/'' \<Longrightarrow>
   forEachCallback' p fs (nf, er, s) r = (nf @ [r], er, s)"
  by (simp add: forEachCallback'_def)

lemma accounted_stage_image:
  assumes acc: "accounted ids s" and fresh: "r \<notin> set ids"
    and image: "startsWith (type_file (heap s r)) ''image/''"
  shows "accounted (ids @ [r])
     (s\<lparr>heap := (heap s)(r := (heap s r)\<lparr>preview := Some (nextURL' s)\<rparr>),
        nextURL' := Suc (nextURL' s)\<rparr>)"
proof -
  let ?h = "(heap s)(r := (heap s r)\<lparr>preview := Some (nextURL' s)\<rparr>)"
  have d: "distinct ids"
    and img: "\<forall>q. preview (heap s q) \<noteq> None \<longrightarrow> startsWith (type_file (heap s q)) ''image/''"
    and dh: "distinct (revoked' s @ previewHandles (map (heap s) ids))"
    and cov: "set (revoked' s) \<union> set (previewHandles (map (heap s) ids)) = {..<nextURL' s}"
    using acc by (simp_all add: accounted_def)
  have same: "map ?h ids = map (heap s) ids"
    using fresh by (rule map_upd_other)
  have "previewHandles (map ?h (ids @ [r])) = previewHandles (map ?h ids) @ previewHandles [?h r]"
    by (simp add: previewHandles_append)
  then have hs: "previewHandles (map ?h (ids @ [r])) =
      previewHandles (map (heap s) ids) @ [nextURL' s]"
    unfolding same by simp
  have "set (revoked' s @ previewHandles (map (heap s) ids)) = {..<nextURL' s}"
    using cov by simp
  from distinct_snoc_fresh[OF dh this]
  have d1: "distinct (revoked' s @ previewHandles (map (heap s) ids) @ [nextURL' s])"
    by simp
  have c1: "set (revoked' s) \<union> set (previewHandles (map (heap s) ids) @ [nextURL' s]) =
      {..<Suc (nextURL' s)}"
    using cover_snoc_fresh[OF cov] by simp
  have i1: "\<forall>q. preview (?h q) \<noteq> None \<longrightarrow> startsWith (type_file (?h q)) ''image/''"
    using img image by simp
  have d2: "distinct (ids @ [r])" using d fresh by simp
  define s1 where "s1 = s\<lparr>heap := ?h, nextURL' := Suc (nextURL' s)\<rparr>"
  have f: "heap s1 = ?h" "revoked' s1 = revoked' s" "nextURL' s1 = Suc (nextURL' s)"
    by (simp_all add: s1_def)
  have "accounted (ids @ [r]) s1"
    unfolding accounted_def f hs using d2 i1 d1 c1 by (intro conjI)
  then show ?thesis by (simp only: s1_def)
qed

lemma accounted_stage_other:
  assumes acc: "accounted ids s" and fresh: "r \<notin> set ids"
    and other: "\<not> startsWith (type_file (heap s r)) ''image/''"
  shows "accounted (ids @ [r]) s"
proof -
  have "preview (heap s r) = None"
    using acc other unfolding accounted_def by blast
  then have "previewHandles (map (heap s) (ids @ [r])) = previewHandles (map (heap s) ids)"
    by (simp add: previewHandles_append)
  then show ?thesis
    using acc fresh unfolding accounted_def by simp
qed

lemma callback'_accounted:
  assumes acc: "accounted (fs @ nf) s" and fresh: "r \<notin> set (fs @ nf)"
    and step: "forEachCallback' p fs (nf, er, s) r = (nf1, er1, s1)"
  shows "accounted (fs @ nf1) s1 \<and> set nf1 \<subseteq> insert r (set nf) \<and> files' s1 = files' s"
proof (cases "validateFile p (heap s r)")
  case (Some e)
  then show ?thesis using step acc by (auto simp: callback'_invalid)
next
  case None
  show ?thesis
  proof (cases "maxFiles p \<le> length fs + length nf")
    case True
    then show ?thesis using step acc None by (auto simp: callback'_full)
  next
    case False
    then have lt: "length fs + length nf < maxFiles p" by simp
    show ?thesis
    proof (cases "startsWith (type_file (heap s r)) ''image/''")
      case True
      have "accounted ((fs @ nf) @ [r])
          (s\<lparr>heap := (heap s)(r := (heap s r)\<lparr>preview := Some (nextURL' s)\<rparr>),
             nextURL' := Suc (nextURL' s)\<rparr>)"
        using acc fresh True by (rule accounted_stage_image)
      then show ?thesis
        using step callback'_image[OF None lt True, of er] by auto
    next
      case other: False
      have "accounted ((fs @ nf) @ [r]) s"
        using acc fresh other by (rule accounted_stage_other)
      then show ?thesis
        using step callback'_other[OF None lt other, of er] by auto
    qed
  qed
qed

lemma loop'_accounted:
  assumes "accounted (fs @ nf) s" "distinct xs" "set xs \<inter> set (fs @ nf) = {}"
    and "foldl (forEachCallback' p fs) (nf, er, s) xs = (nf', er', s')"
  shows "accounted (fs @ nf') s' \<and> files' s' = files' s"
  using assms
proof (induction xs arbitrary: nf er s)
  case Nil
  then show ?case by simp
next
  case (Cons x xs)
  obtain nf1 er1 s1 where step: "forEachCallback' p fs (nf, er, s) x = (nf1, er1, s1)"
    by (cases "forEachCallback' p fs (nf, er, s) x") auto
  have fresh: "x \<notin> set (fs @ nf)" using Cons.prems(3) by auto
  have one: "accounted (fs @ nf1) s1" "set nf1 \<subseteq> insert x (set nf)" "files' s1 = files' s"
    using callback'_accounted[OF Cons.prems(1) fresh step] by simp_all
  have dis: "set xs \<inter> set (fs @ nf1) = {}"
    using Cons.prems(2,3) one(2) by auto
  have rest: "foldl (forEachCallback' p fs) (nf1, er1, s1) xs = (nf', er', s')"
    using Cons.prems(4) step by simp
  have "distinct xs" using Cons.prems(2) by simp
  from Cons.IH[OF one(1) this dis rest] one(3) show ?case by simp
qed

lemma accounted_fields:
  "heap a = heap b \<Longrightarrow> revoked' a = revoked' b \<Longrightarrow> nextURL' a = nextURL' b \<Longrightarrow>
   accounted ids a = accounted ids b"
  by (simp add: accounted_def)

lemma processFiles'_fields:
  assumes "forEachFile' p s batch = (nf, er, s1)" "files' s1 = files' s"
  shows "heap (processFiles' p s batch) = heap s1"
    and "revoked' (processFiles' p s batch) = revoked' s1"
    and "nextURL' (processFiles' p s batch) = nextURL' s1"
    and "files' (processFiles' p s batch) = files' s @ nf"
  using assms by (simp_all add: processFiles'_def callOnFilesChange'_def Let_def)

lemma processFiles'_accounted:
  assumes "accounted (files' s) s" "distinct batch" "set batch \<inter> set (files' s) = {}"
  shows "accounted (files' (processFiles' p s batch)) (processFiles' p s batch)"
proof -
  obtain nf er s1 where r: "forEachFile' p s batch = (nf, er, s1)"
    by (cases "forEachFile' p s batch") auto
  then have loop: "foldl (forEachCallback' p (files' s)) ([], [], s) batch = (nf, er, s1)"
    by (simp add: forEachFile'_def)
  have "accounted (files' s @ nf) s1 \<and> files' s1 = files' s"
    using loop'_accounted[of "files' s" "[]" s batch p "[]" nf er s1] assms loop by simp
  then have a: "accounted (files' s @ nf) s1" and f: "files' s1 = files' s" by simp_all
  show ?thesis
    unfolding processFiles'_fields(4)[OF r f]
    using a accounted_fields[OF processFiles'_fields(1,2,3)[OF r f]] by simp
qed

lemma removeFile'_out:
  "i < 0 \<or> int (length (files' s)) \<le> i \<Longrightarrow> removeFile' p s i = (Some TypeError, s)"
  by (auto simp: removeFile'_def atIndex_def Let_def)

lemma removeFile'_in:
  assumes "0 \<le> i" "i < int (length (files' s))"
  shows "removeFile' p s i =
    (None, s\<lparr>files' := take (nat i) (files' s) @ drop (Suc (nat i)) (files' s),
              revoked' := revoked' s @
                (case preview (heap s (files' s ! nat i)) of Some u \<Rightarrow> [u] | None \<Rightarrow> []),
              notified' := (if onFilesChange p
                 then notified' s @ [take (nat i) (files' s) @ drop (Suc (nat i)) (files' s)]
                 else notified' s)\<rparr>)"
  using assms
  by (simp add: removeFile'_def atIndex_def Let_def filterNotIndex_in callOnFilesChange'_def
      split: option.splits)

lemma distinct_remove_nth:
  assumes "distinct xs" "i < length xs"
  shows "distinct (take i xs @ drop (Suc i) xs)"
proof -
  have "distinct (take i xs @ xs ! i # drop (Suc i) xs)"
    using assms by (simp only: id_take_nth_drop[OF assms(2), symmetric])
  then show ?thesis by simp
qed

lemma heldHandles_nth:
  assumes "i < length ids"
  shows "previewHandles (map h ids) =
     previewHandles (map h (take i ids))
       @ (case preview (h (ids ! i)) of Some u \<Rightarrow> [u] | None \<Rightarrow> [])
       @ previewHandles (map h (drop (Suc i) ids))"
  using previewHandles_nth[of i "map h ids"] assms by (simp add: take_map drop_map)

lemma removeFile'_accounted:
  assumes "accounted (files' s) s"
  shows "accounted (files' (snd (removeFile' p s i))) (snd (removeFile' p s i))"
proof (cases "0 \<le> i \<and> i < int (length (files' s))")
  case True
  then have lt: "nat i < length (files' s)" by linarith
  let ?ids = "take (nat i) (files' s) @ drop (Suc (nat i)) (files' s)"
  let ?rel = "(case preview (heap s (files' s ! nat i)) of Some u \<Rightarrow> [u] | None \<Rightarrow> [])"
  have d: "distinct (files' s)"
    and img: "\<forall>q. preview (heap s q) \<noteq> None \<longrightarrow> startsWith (type_file (heap s q)) ''image/''"
    and dh: "distinct (revoked' s @ previewHandles (map (heap s) (files' s)))"
    and cov: "set (revoked' s) \<union> set (previewHandles (map (heap s) (files' s))) = {..<nextURL' s}"
    using assms by (simp_all add: accounted_def)
  note split = heldHandles_nth[OF lt, of "heap s"]
  have rest: "previewHandles (map (heap s) ?ids) =
      previewHandles (map (heap s) (take (nat i) (files' s)))
        @ previewHandles (map (heap s) (drop (Suc (nat i)) (files' s)))"
    by (simp add: previewHandles_append)
  have d1: "distinct ?ids" using d lt by (rule distinct_remove_nth)
  have d2: "distinct ((revoked' s @ ?rel) @ previewHandles (map (heap s) ?ids))"
    using dh unfolding split rest by auto
  have c2: "set (revoked' s @ ?rel) \<union> set (previewHandles (map (heap s) ?ids)) = {..<nextURL' s}"
    using cov unfolding split rest by auto
  have "accounted ?ids (s\<lparr>files' := ?ids, revoked' := revoked' s @ ?rel,
      notified' := (if onFilesChange p then notified' s @ [?ids] else notified' s)\<rparr>)"
    unfolding accounted_def using d1 img d2 c2 by simp
  then show ?thesis using True by (simp add: removeFile'_in)
next
  case False
  then have "i < 0 \<or> int (length (files' s)) \<le> i" by linarith
  then show ?thesis using assms by (simp add: removeFile'_out)
qed

lemma elapse'_accounted:
  "accounted (files' s) s \<Longrightarrow> accounted (files' (elapse' d s)) (elapse' d s)"
  by (simp add: accounted_def elapse'_def Let_def)

lemma steps'_accounted:
  "accounted (files' s) s \<Longrightarrow> distinctFiles p s evs \<Longrightarrow>
   accounted (files' (foldl (step' p) s evs)) (foldl (step' p) s evs)"
proof (induction evs arbitrary: s)
  case Nil
  then show ?case by simp
next
  case (Cons ev evs)
  show ?case
  proof (cases ev)
    case (SubmitBatch' fileList)
    then have "accounted (files' (step' p s ev)) (step' p s ev)"
      using Cons.prems by (simp add: processFiles'_accounted)
    moreover have "distinctFiles p (step' p s ev) evs"
      using Cons.prems(2) SubmitBatch' by simp
    ultimately show ?thesis using Cons.IH by simp
  next
    case (RemoveEntry' i)
    then have "accounted (files' (step' p s ev)) (step' p s ev)"
      using Cons.prems by (simp add: removeFile'_accounted)
    moreover have "distinctFiles p (step' p s ev) evs"
      using Cons.prems(2) RemoveEntry' by simp
    ultimately show ?thesis using Cons.IH by simp
  next
    case (Elapse' d)
    then have "accounted (files' (step' p s ev)) (step' p s ev)"
      using Cons.prems by (simp add: elapse'_accounted)
    moreover have "distinctFiles p (step' p s ev) evs"
      using Cons.prems(2) Elapse' by simp
    ultimately show ?thesis using Cons.IH by simp
  qed
qed

text \<open>
  The two models take the same step on a File object that has no preview yet: the same
  message is recorded, or the object is staged and what the store then holds for it is
  the record that the value model stages.
\<close>

lemma validateFile_asFileWithPreview:
  "validateFile p (asFileWithPreview f) = validateFile p f"
  by (simp add: validateFile_def asFileWithPreview_def)

lemma callback_models_agree:
  assumes "heap s' r = asFileWithPreview f" "length fs' = length fs"
    "length nf' = length nf" "nextURL' s' = nextURL s"
    and "forEachCallback' p fs' (nf', er, s') r = (nf1', er1', s1')"
    and "forEachCallback p fs (nf, er, s) f = (nf1, er1, s1)"
  shows "er1' = er1 \<and> nextURL' s1' = nextURL s1
     \<and> (nf1' = nf' \<and> nf1 = nf \<or> nf1' = nf' @ [r] \<and> nf1 = nf @ [heap s1' r])"
proof -
  have t: "type_file (heap s' r) = type_file f"
    using assms(1) by (simp add: asFileWithPreview_def)
  have v: "validateFile p (heap s' r) = validateFile p f"
    using assms(1) by (simp add: validateFile_asFileWithPreview)
  show ?thesis
  proof (cases rule: callback_cases[of p f fs nf er s])
    case (invalid e)
    then show ?thesis
      using assms v callback'_invalid[of p s' r e fs' nf' er] by simp
  next
    case full
    then show ?thesis
      using assms v callback'_full[of p s' r fs' nf' er] by simp
  next
    case image
    then show ?thesis
      using assms v t callback'_image[of p s' r fs' nf' er] by simp
  next
    case other
    then show ?thesis
      using assms v t callback'_other[of p s' r fs' nf' er] by simp
  qed
qed

text \<open>
  C4 (as the code has it). Take a run in which every batch lists distinct File objects,
  none of them already in \<open>files\<close>. In every state of such a run no object URL has been
  revoked twice, no two entries hold the same one, the URL of an entry that is still in
  \<open>files\<close> has not been revoked, and every URL created so far is either revoked or held
  by an entry still in \<open>files\<close>. Removing an entry at an index in range revokes the URL
  of that entry, if it has one, and nothing else, and leaves the other entries and their
  URLs as they are. The component has no teardown step that would revoke the URLs of
  the entries that remain.
\<close>

theorem handles_released_once:
  "distinctFiles p (initialState' objects) evs \<Longrightarrow>
     distinct (revoked' (run' p objects evs))
     \<and> distinct (heldHandles (run' p objects evs))
     \<and> set (revoked' (run' p objects evs)) \<inter> set (heldHandles (run' p objects evs)) = {}
     \<and> set (revoked' (run' p objects evs)) \<union> set (heldHandles (run' p objects evs)) =
         {..<nextURL' (run' p objects evs)}
     \<and> (0 \<le> i \<and> i < int (length (files' s)) \<longrightarrow>
          revoked' (snd (removeFile' p s i)) =
            revoked' s @ (case preview (heap s (files' s ! nat i)) of
                            Some u \<Rightarrow> [u] | None \<Rightarrow> [])
          \<and> heldHandles s =
            previewHandles (map (heap s) (take (nat i) (files' s)))
              @ (case preview (heap s (files' s ! nat i)) of Some u \<Rightarrow> [u] | None \<Rightarrow> [])
              @ previewHandles (map (heap s) (drop (Suc (nat i)) (files' s)))
          \<and> files' (snd (removeFile' p s i)) =
            take (nat i) (files' s) @ drop (Suc (nat i)) (files' s)
          \<and> heap (snd (removeFile' p s i)) = heap s)"
proof -
  assume fed: "distinctFiles p (initialState' objects) evs"
  have "accounted (files' (initialState' objects)) (initialState' objects)"
    by (simp add: accounted_def initialState'_def asFileWithPreview_def)
  then have "accounted (files' (run' p objects evs)) (run' p objects evs)"
    unfolding run'_def using fed by (rule steps'_accounted)
  then have inv: "distinct (revoked' (run' p objects evs))"
    "distinct (heldHandles (run' p objects evs))"
    "set (revoked' (run' p objects evs)) \<inter> set (heldHandles (run' p objects evs)) = {}"
    "set (revoked' (run' p objects evs)) \<union> set (heldHandles (run' p objects evs)) =
         {..<nextURL' (run' p objects evs)}"
    by (simp_all add: accounted_def heldHandles_def)
  have rem: "0 \<le> i \<and> i < int (length (files' s)) \<longrightarrow>
          revoked' (snd (removeFile' p s i)) =
            revoked' s @ (case preview (heap s (files' s ! nat i)) of
                            Some u \<Rightarrow> [u] | None \<Rightarrow> [])
          \<and> heldHandles s =
            previewHandles (map (heap s) (take (nat i) (files' s)))
              @ (case preview (heap s (files' s ! nat i)) of Some u \<Rightarrow> [u] | None \<Rightarrow> [])
              @ previewHandles (map (heap s) (drop (Suc (nat i)) (files' s)))
          \<and> files' (snd (removeFile' p s i)) =
            take (nat i) (files' s) @ drop (Suc (nat i)) (files' s)
          \<and> heap (snd (removeFile' p s i)) = heap s"
  proof
    assume a: "0 \<le> i \<and> i < int (length (files' s))"
    then have lt: "nat i < length (files' s)" by linarith
    have h: "heldHandles s =
            previewHandles (map (heap s) (take (nat i) (files' s)))
              @ (case preview (heap s (files' s ! nat i)) of Some u \<Rightarrow> [u] | None \<Rightarrow> [])
              @ previewHandles (map (heap s) (drop (Suc (nat i)) (files' s)))"
      unfolding heldHandles_def by (rule heldHandles_nth[OF lt])
    show "revoked' (snd (removeFile' p s i)) =
            revoked' s @ (case preview (heap s (files' s ! nat i)) of
                            Some u \<Rightarrow> [u] | None \<Rightarrow> [])
          \<and> heldHandles s =
            previewHandles (map (heap s) (take (nat i) (files' s)))
              @ (case preview (heap s (files' s ! nat i)) of Some u \<Rightarrow> [u] | None \<Rightarrow> [])
              @ previewHandles (map (heap s) (drop (Suc (nat i)) (files' s)))
          \<and> files' (snd (removeFile' p s i)) =
            take (nat i) (files' s) @ drop (Suc (nat i)) (files' s)
          \<and> heap (snd (removeFile' p s i)) = heap s"
      using a h by (simp add: removeFile'_in)
  qed
  show ?thesis using inv rem by (intro conjI)
qed

theorem handles_released_once_witness:
  "distinctFiles defaultProps (initialState' sampleObjects)
     [SubmitBatch' [0, 1, 2], RemoveEntry' 0]
   \<and> revoked' (run' defaultProps sampleObjects [SubmitBatch' [0, 1, 2], RemoveEntry' 0]) = [0]
   \<and> heldHandles (run' defaultProps sampleObjects [SubmitBatch' [0, 1, 2], RemoveEntry' 0]) = [1]
   \<and> set (revoked' (run' defaultProps sampleObjects [SubmitBatch' [0, 1, 2], RemoveEntry' 0]))
       \<inter> set (heldHandles (run' defaultProps sampleObjects [SubmitBatch' [0, 1, 2], RemoveEntry' 0]))
       = {}
   \<and> set (revoked' (run' defaultProps sampleObjects [SubmitBatch' [0, 1, 2], RemoveEntry' 0]))
       \<union> set (heldHandles (run' defaultProps sampleObjects [SubmitBatch' [0, 1, 2], RemoveEntry' 0]))
       = {..<nextURL' (run' defaultProps sampleObjects [SubmitBatch' [0, 1, 2], RemoveEntry' 0])}"
proof -
  have fed: "distinctFiles defaultProps (initialState' sampleObjects)
     [SubmitBatch' [0, 1, 2], RemoveEntry' 0]"
    by (simp add: eval_defs)
  have r: "revoked' (run' defaultProps sampleObjects [SubmitBatch' [0, 1, 2], RemoveEntry' 0]) = [0]"
    by (simp add: eval_defs)
  have h: "heldHandles (run' defaultProps sampleObjects [SubmitBatch' [0, 1, 2], RemoveEntry' 0]) = [1]"
    by (simp add: eval_defs)
  note t = handles_released_once[OF fed]
  have a: "set (revoked' (run' defaultProps sampleObjects [SubmitBatch' [0, 1, 2], RemoveEntry' 0]))
       \<inter> set (heldHandles (run' defaultProps sampleObjects [SubmitBatch' [0, 1, 2], RemoveEntry' 0]))
       = {}"
    using t by blast
  have b: "set (revoked' (run' defaultProps sampleObjects [SubmitBatch' [0, 1, 2], RemoveEntry' 0]))
       \<union> set (heldHandles (run' defaultProps sampleObjects [SubmitBatch' [0, 1, 2], RemoveEntry' 0]))
       = {..<nextURL' (run' defaultProps sampleObjects [SubmitBatch' [0, 1, 2], RemoveEntry' 0])}"
    using t by blast
  show ?thesis using fed r h a b by (intro conjI)
qed

text \<open>
  One image is accepted and the component is disposed of: URL 0 has been created, is
  still the preview of the entry, and has not been revoked.
\<close>

theorem teardown_releases_counterexample:
  "nextURL' (unmount (run' defaultProps sampleObjects [SubmitBatch' [0]])) = 1
   \<and> heldHandles (unmount (run' defaultProps sampleObjects [SubmitBatch' [0]])) = [0]
   \<and> revoked' (unmount (run' defaultProps sampleObjects [SubmitBatch' [0]])) = []"
  by (simp add: eval_defs)

text \<open>
  What the hypothesis on the batches keeps out: one File object listed twice in a
  batch. Both entries are the same object, whose \<open>preview\<close> is overwritten by the second
  URL; URL 0 is then held by no entry, and removing both entries revokes URL 1 twice.
\<close>

lemma same_object_twice:
  "files' (run' defaultProps sampleObjects [SubmitBatch' [0, 0]]) = [0, 0]
   \<and> nextURL' (run' defaultProps sampleObjects [SubmitBatch' [0, 0]]) = 2
   \<and> heldHandles (run' defaultProps sampleObjects [SubmitBatch' [0, 0]]) = [1, 1]
   \<and> revoked' (run' defaultProps sampleObjects
         [SubmitBatch' [0, 0], RemoveEntry' 0, RemoveEntry' 0]) = [1, 1]"
  by (simp add: eval_defs)

subsection \<open>The timers that clear the error\<close>

text \<open>
  C5 (as the code has it). When a \<open>processFiles\<close> call records a rejection while a
  \<open>setError(null)\<close> of an earlier call is still queued for time \<open>T\<close>, the new message
  replaces the old one at once and one more timer is queued for 5000 ms later; the
  earlier timer stays queued. The new message is shown for as long as no queued timer
  has come due; as soon as the earlier timer fires, at \<open>T\<close>, it clears the new message.
\<close>

theorem earlier_timer_clears_later_error:
  "T \<in> set (timers s) \<Longrightarrow> forEachFile p s batch = (newFiles, errors, s1) \<Longrightarrow> errors \<noteq> [] \<Longrightarrow>
     error (processFiles p s batch) = Some (hd errors)
     \<and> now (processFiles p s batch) = now s
     \<and> timers (processFiles p s batch) = timers s @ [now s + 5000]
     \<and> (T \<le> now s + d \<longrightarrow> error (elapse d (processFiles p s batch)) = None)
     \<and> (d < 5000 \<and> (\<forall>t\<in>set (timers s). now s + d < t) \<longrightarrow>
          error (elapse d (processFiles p s batch)) = Some (hd errors))"
proof -
  assume T: "T \<in> set (timers s)"
    and r: "forEachFile p s batch = (newFiles, errors, s1)"
    and ne: "errors \<noteq> []"
  obtain nf er k where sh: "forEachFile p s batch = (nf, er, s\<lparr>nextURL := nextURL s + k\<rparr>)"
    unfolding forEachFile_def using loop_shape[of p "files s" "[]" "[]" s batch] by auto
  have er: "er = errors" using r sh by simp
  have e: "error (processFiles p s batch) = Some (hd errors)"
    and n: "now (processFiles p s batch) = now s"
    and t: "timers (processFiles p s batch) = timers s @ [now s + 5000]"
    using ne er by (simp_all add: processFiles_eq[OF sh])
  have fire: "T \<le> now s + d \<longrightarrow> error (elapse d (processFiles p s batch)) = None"
    using T by (auto simp: error_elapse n t)
  have stay: "d < 5000 \<and> (\<forall>t\<in>set (timers s). now s + d < t) \<longrightarrow>
          error (elapse d (processFiles p s batch)) = Some (hd errors)"
  proof
    assume a: "d < 5000 \<and> (\<forall>t\<in>set (timers s). now s + d < t)"
    then have "\<forall>t\<in>set (timers s @ [now s + 5000]). \<not> t \<le> now s + d"
      by (simp add: not_le)
    then have "\<not> (\<exists>t\<in>set (timers s @ [now s + 5000]). t \<le> now s + d)"
      by blast
    then show "error (elapse d (processFiles p s batch)) = Some (hd errors)"
      unfolding error_elapse n t using e by simp
  qed
  show ?thesis using e n t fire stay by (intro conjI)
qed

theorem earlier_timer_clears_later_error_witness:
  \<open>5000 \<in> set (timers (elapse 3000 (processFiles oneFileProps initialState [movie])))
   \<and> forEachFile oneFileProps (elapse 3000 (processFiles oneFileProps initialState [movie])) [program] =
       ([], [''File "setup.exe" is not a supported file type.''],
        elapse 3000 (processFiles oneFileProps initialState [movie]))
   \<and> error (processFiles oneFileProps
         (elapse 3000 (processFiles oneFileProps initialState [movie])) [program]) =
       Some ''File "setup.exe" is not a supported file type.''
   \<and> timers (processFiles oneFileProps
         (elapse 3000 (processFiles oneFileProps initialState [movie])) [program]) =
       [5000, 8000]
   \<and> error (elapse 2000 (processFiles oneFileProps
         (elapse 3000 (processFiles oneFileProps initialState [movie])) [program])) = None\<close>
proof -
  have T: "5000 \<in> set (timers (elapse 3000 (processFiles oneFileProps initialState [movie])))"
    by (simp add: eval_defs)
  have r: \<open>forEachFile oneFileProps (elapse 3000 (processFiles oneFileProps initialState [movie]))
       [program] =
       ([], [''File "setup.exe" is not a supported file type.''],
        elapse 3000 (processFiles oneFileProps initialState [movie]))\<close>
    by (simp add: eval_defs)
  have tm: "timers (elapse 3000 (processFiles oneFileProps initialState [movie])) = [5000]"
    "now (elapse 3000 (processFiles oneFileProps initialState [movie])) = 3000"
    by (simp_all add: eval_defs)
  note t = earlier_timer_clears_later_error[OF T r, of 2000]
  show ?thesis using t T r by (simp add: tm)
qed

text \<open>
  A first rejection at time 0 and a second one at time 3000: 2000 ms after the second
  message was set, the timer of the first call has cleared it.
\<close>

theorem later_error_full_window_counterexample:
  \<open>error (run oneFileProps [SubmitBatch [movie], Elapse 3000, SubmitBatch [program]]) =
     Some ''File "setup.exe" is not a supported file type.''
   \<and> error (run oneFileProps [SubmitBatch [movie], Elapse 3000, SubmitBatch [program], Elapse 2000])
     = None\<close>
  by (simp add: eval_defs)

subsection \<open>Wildcard type rules\<close>

text \<open>
  What the callback of \<open>acceptedTypes.some\<close> does with a rule \<open>base/*\<close>: it compares
  the file's type with \<open>base\<close>, without the slash.
\<close>

lemma wildcard_rule:
  assumes "CHR ''/'' \<notin> set base" "\<not> startsWith base ''.''"
  shows "isValidTypeRule fileType fileName (base @ ''/*'') = startsWith fileType base"
proof -
  have "takeWhile (\<lambda>c. c \<noteq> CHR ''/'') (base @ ''/*'') = base"
    using assms(1) by (induction base) auto
  moreover have "\<not> startsWith (base @ ''/*'') ''.''"
    using assms(2) by (cases base) (auto simp: startsWith_def)
  ultimately show ?thesis
    by (simp add: isValidTypeRule_def includes_str_def splitSlashFirst_def)
qed

text \<open>
  C2. The rule \<open>image/*\<close> accepts a file whose type is \<open>images/png\<close>, which does not
  start with \<open>image/\<close>; with the default rules \<open>validateFile\<close> lets such a file pass, and
  \<open>processFiles\<close> stages it without a preview since its own test is \<open>startsWith("image/")\<close>.
\<close>

theorem wildcard_matches_without_slash:
  "isValidTypeRule ''images/png'' ''scan.bin'' ''image/*''
   \<and> \<not> startsWith ''images/png'' ''image/''
   \<and> validateFile defaultProps scan = None
   \<and> files (processFiles defaultProps initialState [scan]) = [asFileWithPreview scan]"
  by (simp add: eval_defs)

end
